theory Spec2Isabelle
  imports Main "HOL-Library.Word" "HOL-Library.Multiset"
begin

section \<open>Bytes, strings and failures\<close>

text \<open>
  Go's \<open>[]byte\<close> and \<open>string\<close> are both sequences of 8-bit bytes; the conversion
  \<open>string(fileslice)\<close> copies them unchanged. Both are modelled as \<open>char list\<close>
  (a HOL \<open>char\<close> is one byte).
\<close>

type_synonym bytes = "char list"

abbreviation nl :: char where "nl \<equiv> CHR 0x0A"
abbreviation tab :: char where "tab \<equiv> CHR 0x09"
abbreviation zero_byte :: char where "zero_byte \<equiv> CHR 0x00"

text \<open>
  The two ways the process dies: \<open>Error.Fatalln\<close> (\<open>log.Fatalln\<close> prints and calls
  \<open>os.Exit(1)\<close>) and a run-time panic (\<open>panic(err)\<close>, or an index out of range in a
  goroutine, which nobody recovers).
\<close>

datatype failure = FatalExit | Panic

text \<open>\<open>strings.HasPrefix\<close> and \<open>strings.HasSuffix\<close>, as the Go library defines them.\<close>

definition HasPrefix :: "string \<Rightarrow> string \<Rightarrow> bool" where
  "HasPrefix s p = (length p \<le> length s \<and> take (length p) s = p)"

definition HasSuffix :: "string \<Rightarrow> string \<Rightarrow> bool" where
  "HasSuffix s suf = (length suf \<le> length s \<and> drop (length s - length suf) s = suf)"

section \<open>Reader\<close>

text \<open>
  One call \<open>reader.Read(buffer)\<close> returns the bytes it stored at the front of the buffer
  (their number is \<open>length\<close>) and an error value. The byte source is the list of the
  results of the successive calls; once the list is used up, a call returns \<open>0, io.EOF\<close>.
  A call never stores more than the buffer holds.
\<close>

datatype read_err = NoErr | EOF | OtherErr

datatype read_result = Rd bytes read_err

text \<open>
  What \<open>GetReader\<close> meets outside the program: the result of \<open>os.Open\<close> (\<open>None\<close> when
  it fails), whether \<open>c.StdoutPipe()\<close> fails, whether \<open>c.Start()\<close> fails, what the
  reads on the pipe of a started decompressor return, and the exit status of the
  decompressor. The exit status is never looked at by the program: \<open>c.Wait()\<close> is
  never called.
\<close>

record world =
  open_file :: "read_result list option"
  pipe_failed :: bool
  start_failed :: bool
  proc_stdout :: "read_result list"
  proc_exit :: nat

text \<open>
  \<open>GetReader\<close>. The program drops the result of \<open>c.Start()\<close> and returns the pipe all
  the same; what a failed start does to the pipe is the Go library's doing (\<open>os/exec\<close>,
  not code of this repository): \<open>Start\<close> closes both ends of the pipe before it returns
  its error, so the first \<open>Read\<close> on the pipe returns an error that is not \<open>io.EOF\<close>.
\<close>

definition GetReader :: "string \<Rightarrow> world \<Rightarrow> failure + read_result list" where
  "GetReader filename w =
     (if HasSuffix filename ''.gz''
      then (if pipe_failed w then Inl Panic
            else if start_failed w then Inr [Rd [] OtherErr]
            else Inr (proc_stdout w))
      else (case open_file w of None \<Rightarrow> Inl FatalExit | Some rs \<Rightarrow> Inr rs))"

text \<open>
  The inner loop of \<open>Start\<close>: \<open>end_it\<close> walks down from \<open>length - 1\<close>; at \<open>0\<close> it
  stops without looking at \<open>buffer[0]\<close> (\<open>None\<close>), at a newline it stops with its index.
\<close>

fun find_nl :: "bytes \<Rightarrow> nat \<Rightarrow> nat option" where
  "find_nl buffer 0 = None"
| "find_nl buffer (Suc n) =
     (if buffer ! Suc n = nl then Some (Suc n) else find_nl buffer n)"

text \<open>
  The outer loop, with the leftovers and the chunks sent so far on \<open>outq\<close>. The buffer
  is \<open>make([]byte, bsize)\<close>, all zero, with the bytes read at its front; the source
  appends \<open>buffer...\<close> and keeps \<open>buffer[end_it+1:]\<close>, both up to the end of the buffer,
  not up to \<open>length\<close>. The result is the chunks sent and the leftovers when the loop
  is left; \<open>Start\<close> then closes the queue and the leftovers are gone.
\<close>

fun Reader_loop ::
  "nat \<Rightarrow> read_result list \<Rightarrow> bytes \<Rightarrow> bytes list \<Rightarrow> failure + (bytes list \<times> bytes)" where
  "Reader_loop bsize [] leftovers outq = Inr (outq, leftovers)"
| "Reader_loop bsize (Rd d e # rs) leftovers outq =
     (if e = OtherErr then Inl FatalExit
      else if length d = 0 then Inr (outq, leftovers)
      else
        let buffer = d @ replicate (bsize - length d) zero_byte in
        case find_nl buffer (length d - 1) of
          None \<Rightarrow> Reader_loop bsize rs (leftovers @ buffer) outq
        | Some end_it \<Rightarrow>
            Reader_loop bsize rs (drop (end_it + 1) buffer)
              (outq @ [leftovers @ take end_it buffer]))"

definition Reader_Start :: "string \<Rightarrow> nat \<Rightarrow> world \<Rightarrow> failure + bytes list" where
  "Reader_Start filename bsize w =
     (case GetReader filename w of
        Inl e \<Rightarrow> Inl e
      | Inr rs \<Rightarrow>
          (case Reader_loop bsize rs [] [] of
             Inl e \<Rightarrow> Inl e
           | Inr (outq, leftovers) \<Rightarrow> Inr outq))"

text \<open>A plain file that opens, with the given reads.\<close>

definition plain_file :: "read_result list \<Rightarrow> world" where
  "plain_file rs =
     \<lparr>open_file = Some rs, pipe_failed = False, start_failed = False,
      proc_stdout = [], proc_exit = 0\<rparr>"

text \<open>A decompressor that starts, writes the given reads to its pipe and exits with a status.\<close>

definition gz_proc :: "read_result list \<Rightarrow> nat \<Rightarrow> world" where
  "gz_proc rs status =
     \<lparr>open_file = None, pipe_failed = False, start_failed = False,
      proc_stdout = rs, proc_exit = status\<rparr>"

section \<open>Parser\<close>

text \<open>
  The struct \<open>conn\<close>. Go's \<open>int\<close> is taken as 64 bits wide (the width on the 64-bit
  platforms the program is built for), so \<open>bytes1 + bytes2\<close> wraps modulo \<open>2 ^ 64\<close> and
  \<open>int64(b)\<close> changes nothing.
\<close>

record conn =
  orig :: string
  resp :: string
  bytes :: "64 word"

definition zero_conn :: conn where
  "zero_conn = \<lparr>orig = [], resp = [], bytes = 0\<rparr>"

text \<open>
  \<open>strings.Split(s, sep)\<close> for a separator of one byte: the pieces between the
  separators, in order; the empty string gives one empty piece.
\<close>

fun Split :: "string \<Rightarrow> char \<Rightarrow> string list" where
  "Split [] sep = [[]]"
| "Split (c # cs) sep =
     (if c = sep then [] # Split cs sep
      else (case Split cs sep of
              p # ps \<Rightarrow> (c # p) # ps
            | [] \<Rightarrow> [[c]]))"

text \<open>
  \<open>strconv.Atoi\<close> is the Go library's, not this repository's; it is modelled from its
  documentation: an optional sign, then one or more decimal digits. It returns the
  value and an error; on a syntax error the value is \<open>0\<close>, on a value out of range the
  value is the nearest 64-bit integer. \<open>Parse\<close> drops the error and keeps the value.
\<close>

definition is_digit :: "char \<Rightarrow> bool" where
  "is_digit c = (48 \<le> (of_char c :: nat) \<and> (of_char c :: nat) \<le> 57)"

fun digits_val :: "string \<Rightarrow> nat \<Rightarrow> nat" where
  "digits_val [] n = n"
| "digits_val (c # cs) n = digits_val cs (n * 10 + (of_char c - 48))"

definition Atoi :: "string \<Rightarrow> 64 word \<times> bool" where
  "Atoi s =
     (let signed = (s \<noteq> [] \<and> (hd s = CHR ''-'' \<or> hd s = CHR ''+''));
          neg = (s \<noteq> [] \<and> hd s = CHR ''-'');
          body = (if signed then tl s else s)
      in if body = [] \<or> \<not> list_all is_digit body then (0, False)
         else
           let n = digits_val body 0 in
           if neg then (if 2 ^ 63 < n then (word_of_int (- (2 ^ 63)), False)
                        else (word_of_int (- int n), True))
           else (if 2 ^ 63 \<le> n then (word_of_int (2 ^ 63 - 1), False)
                 else (word_of_nat n, True)))"

text \<open>Indexing a slice: a run-time panic when the index is out of range.\<close>

definition index :: "'a list \<Rightarrow> nat \<Rightarrow> failure + 'a" where
  "index xs i = (if i < length xs then Inr (xs ! i) else Inl Panic)"

text \<open>
  The body of the loop of \<open>Parse\<close> for one line that is not a comment: the four
  indexings in the order of the source, each of which can panic.
\<close>

definition parse_line :: "string \<Rightarrow> failure + conn" where
  "parse_line line =
     (let data = Split line tab in
      case index data 2 of Inl e \<Rightarrow> Inl e | Inr o1 \<Rightarrow>
      (case index data 4 of Inl e \<Rightarrow> Inl e | Inr r1 \<Rightarrow>
      (case index data 16 of Inl e \<Rightarrow> Inl e | Inr f16 \<Rightarrow>
      (case index data 18 of Inl e \<Rightarrow> Inl e | Inr f18 \<Rightarrow>
         Inr \<lparr>orig = o1, resp = r1, bytes = fst (Atoi f16) + fst (Atoi f18)\<rparr>))))"

text \<open>
  The loop of \<open>Parse\<close> over the lines, with \<open>data_slice\<close> as it grows. \<open>line[0]\<close>
  panics on an empty line.
\<close>

fun Parse_loop :: "string list \<Rightarrow> conn list \<Rightarrow> failure + conn list" where
  "Parse_loop [] data_slice = Inr data_slice"
| "Parse_loop (line # lines) data_slice =
     (case index line 0 of
        Inl e \<Rightarrow> Inl e
      | Inr c0 \<Rightarrow>
          if c0 = CHR ''#'' then Parse_loop lines data_slice
          else (case parse_line line of
                  Inl e \<Rightarrow> Inl e
                | Inr c \<Rightarrow> Parse_loop lines (data_slice @ [c])))"

text \<open>
  \<open>Parse\<close>: \<open>make([]conn, len(lines))\<close> is a slice of \<open>len(lines)\<close> zero records, and
  the loop appends to it. The result is the batch sent on \<open>outq\<close>.
\<close>

definition Parse :: "bytes \<Rightarrow> failure + conn list" where
  "Parse fileslice =
     (let lines = Split fileslice nl
      in Parse_loop lines (replicate (length lines) zero_conn))"

text \<open>The lines of a chunk that \<open>Parse\<close> does not skip: those that are not comments.\<close>

definition is_comment :: "string \<Rightarrow> bool" where
  "is_comment line = (line \<noteq> [] \<and> hd line = CHR ''#'')"

definition non_skipped :: "bytes \<Rightarrow> string list" where
  "non_skipped fileslice = filter (\<lambda>line. \<not> is_comment line) (Split fileslice nl)"

section \<open>Reducer\<close>

text \<open>
  A Go \<open>map[string]int64\<close> is an association list with one entry for each key; the
  order of the list is the order in which a \<open>range\<close> over the map meets the entries,
  which Go leaves open. \<open>add_to m k v\<close> is \<open>m[k] += v\<close>: a missing key reads as \<open>0\<close>.
\<close>

type_synonym tally = "(string \<times> 64 word) list"

fun add_to :: "tally \<Rightarrow> string \<Rightarrow> 64 word \<Rightarrow> tally" where
  "add_to [] k v = [(k, 0 + v)]"
| "add_to ((k', w) # m) k v =
     (if k' = k then (k', w + v) # m else (k', w) # add_to m k v)"

fun Reduce_loop :: "conn list \<Rightarrow> tally \<Rightarrow> tally" where
  "Reduce_loop [] tt = tt"
| "Reduce_loop (c # cs) tt =
     (let tt1 = (if HasPrefix (orig c) ''128.252.'' then add_to tt (orig c) (bytes c) else tt);
          tt2 = (if HasPrefix (resp c) ''128.252.'' then add_to tt1 (resp c) (bytes c) else tt1)
      in Reduce_loop cs tt2)"

definition Reduce :: "conn list \<Rightarrow> tally" where
  "Reduce data_slice = Reduce_loop data_slice []"

section \<open>Combiner\<close>

text \<open>The inner loop of \<open>Start\<close>: one partial result added into \<open>final\<close>.\<close>

fun merge_into :: "tally \<Rightarrow> tally \<Rightarrow> tally" where
  "merge_into final [] = final"
| "merge_into final ((ip, bytecount) # rest) = merge_into (add_to final ip bytecount) rest"

text \<open>
  The outer loop over the partial results in the order they arrive, with the numbers
  sent on \<open>outq\<close>.
\<close>

fun Combiner_loop :: "tally list \<Rightarrow> tally \<Rightarrow> nat list \<Rightarrow> tally \<times> nat list" where
  "Combiner_loop [] final outq = (final, outq)"
| "Combiner_loop (subresult # rest) final outq =
     Combiner_loop rest (merge_into final subresult) (outq @ [length subresult])"

definition Combiner_final :: "tally list \<Rightarrow> tally" where
  "Combiner_final inq = fst (Combiner_loop inq [] [])"

text \<open>
  \<open>Report\<close>, first loop: \<open>swapped\<close> gets an entry for a value only when it has none
  (the \<open>append\<close> in the other branch changes the local \<open>list\<close> alone), \<open>keys\<close> grows
  by the value, \<open>tbytes\<close> adds it up.
\<close>

fun Report_scan ::
  "tally \<Rightarrow> (64 word \<rightharpoonup> string list) \<Rightarrow> 64 word list \<Rightarrow> 64 word
   \<Rightarrow> (64 word \<rightharpoonup> string list) \<times> 64 word list \<times> 64 word" where
  "Report_scan [] swapped keys tbytes = (swapped, keys, tbytes)"
| "Report_scan ((k, v) # tt) swapped keys tbytes =
     Report_scan tt
       (case swapped v of Some list \<Rightarrow> swapped | None \<Rightarrow> swapped(v \<mapsto> [k]))
       (keys @ [v]) (tbytes + v)"

text \<open>
  A printed line: the address, and the value and the total from which the printed
  percentage \<open>float64(k)/float64(tbytes)*100\<close> is computed.
\<close>

type_synonym line = "string \<times> 64 word \<times> 64 word"

text \<open>The loop over \<open>ips\<close>: the result is \<open>keepgoing\<close>, \<open>num_printed\<close> and the lines.\<close>

fun print_ips ::
  "string list \<Rightarrow> 64 word \<Rightarrow> 64 word \<Rightarrow> nat \<Rightarrow> line list \<Rightarrow> bool \<times> nat \<times> line list" where
  "print_ips [] k tbytes num_printed out = (True, num_printed, out)"
| "print_ips (ip # ips) k tbytes num_printed out =
     (if num_printed < 10
      then print_ips ips k tbytes (num_printed + 1) (out @ [(ip, k, tbytes)])
      else (False, num_printed, out))"

fun print_keys ::
  "64 word list \<Rightarrow> (64 word \<rightharpoonup> string list) \<Rightarrow> 64 word \<Rightarrow> nat \<Rightarrow> line list \<Rightarrow> line list" where
  "print_keys [] swapped tbytes num_printed out = out"
| "print_keys (k # keys) swapped tbytes num_printed out =
     (let ips = (case swapped k of None \<Rightarrow> [] | Some l \<Rightarrow> l)
      in case print_ips ips k tbytes num_printed out of
           (keepgoing, num_printed', out') \<Rightarrow>
             if \<not> keepgoing then out'
             else print_keys keys swapped tbytes num_printed' out')"

text \<open>
  \<open>Report\<close>: \<open>keys\<close> starts as \<open>make([]int64, len(tt))\<close>, that is \<open>len(tt)\<close> zeros;
  \<open>sort.Sort(sort.Reverse(...))\<close> puts it in descending order of the signed values.
  The argument lists the map in the order the \<open>range\<close> meets it.
\<close>

definition Report :: "tally \<Rightarrow> line list" where
  "Report tt =
     (case Report_scan tt Map.empty (replicate (length tt) 0) 0 of
        (swapped, keys, tbytes) \<Rightarrow>
          print_keys (rev (sort_key sint keys)) swapped tbytes 0 [])"

text \<open>
  \<open>Combiner.Start\<close>: the report and the numbers sent on \<open>outq\<close>. \<open>visit\<close> is the order
  in which the \<open>range\<close> of \<open>Report\<close> meets the entries of a map.
\<close>

definition Combiner_Start :: "(tally \<Rightarrow> tally) \<Rightarrow> tally list \<Rightarrow> line list \<times> nat list" where
  "Combiner_Start visit inq =
     (case Combiner_loop inq [] [] of (final, outq) \<Rightarrow> (Report (visit final), outq))"

section \<open>The pipeline\<close>

text \<open>
  The stages one after the other, for the schedule in which the tasks finish in file
  order: the chunks of the reader, each parsed, each batch reduced, the partial results
  combined and reported. A fatal exit of the reader or a panic of a parse task ends the
  process; the report is printed only after all queues are closed, so then there is none.
\<close>

fun Parse_all :: "bytes list \<Rightarrow> failure + conn list list" where
  "Parse_all [] = Inr []"
| "Parse_all (chunk # chunks) =
     (case Parse chunk of
        Inl e \<Rightarrow> Inl e
      | Inr batch \<Rightarrow>
          (case Parse_all chunks of Inl e \<Rightarrow> Inl e | Inr batches \<Rightarrow> Inr (batch # batches)))"

definition pipeline :: "(tally \<Rightarrow> tally) \<Rightarrow> string \<Rightarrow> nat \<Rightarrow> world \<Rightarrow> failure + line list" where
  "pipeline visit filename bsize w =
     (case Reader_Start filename bsize w of
        Inl e \<Rightarrow> Inl e
      | Inr chunks \<Rightarrow>
          (case Parse_all chunks of
             Inl e \<Rightarrow> Inl e
           | Inr batches \<Rightarrow> Inr (fst (Combiner_Start visit (map Reduce batches)))))"

section \<open>Notions used in the statements and proofs\<close>

text \<open>The value a Go map yields for a key: the zero value when the key is missing.\<close>

definition val :: "tally \<Rightarrow> string \<Rightarrow> 64 word" where
  "val m k = (case map_of m k of None \<Rightarrow> 0 | Some w \<Rightarrow> w)"

text \<open>What one partial result holds for a key, from the list and from its multiset.\<close>

definition part :: "string \<Rightarrow> tally \<Rightarrow> 64 word" where
  "part k t = sum_list (map snd (filter (\<lambda>p. fst p = k) t))"

definition part_m :: "string \<Rightarrow> (string \<times> 64 word) multiset \<Rightarrow> 64 word" where
  "part_m k M = sum_mset (image_mset snd (filter_mset (\<lambda>p. fst p = k) M))"

text \<open>Test data: the fields of a line joined by tabs (\<open>strings.Join(fields, "\\t")\<close>).\<close>

fun tab_line :: "string list \<Rightarrow> string" where
  "tab_line [] = []"
| "tab_line [f] = f"
| "tab_line (f # g # fs) = f @ tab # tab_line (g # fs)"

text \<open>
  Test data: a line of a connection log with 19 fields; the origin is field 2, the
  responder field 4, the two byte counts fields 16 and 18.
\<close>

definition conn_line :: "string \<Rightarrow> string \<Rightarrow> string \<Rightarrow> string \<Rightarrow> string" where
  "conn_line o1 r1 b1 b2 =
     tab_line [''1.0'', ''C1'', o1, ''49153'', r1, ''80'', ''tcp'', ''-'',
               ''0.1'', ''0'', ''0'', ''SF'', ''T'', ''0'', ''D'', ''3'', b1, ''4'', b2]"

text \<open>The record \<open>Parse\<close> builds from a line that has the fields.\<close>

definition conn_of :: "string \<Rightarrow> conn" where
  "conn_of line =
     \<lparr>orig = Split line tab ! 2, resp = Split line tab ! 4,
      bytes = fst (Atoi (Split line tab ! 16)) + fst (Atoi (Split line tab ! 18))\<rparr>"



text \<open>
  A read that fills the buffer, the bytes of a read, and the stream that chunks and
  leftovers stand for: each chunk followed by the newline taken from it, then the
  leftovers.
\<close>

fun full_read :: "nat \<Rightarrow> read_result \<Rightarrow> bool" where
  "full_read bsize (Rd d e) = (length d = bsize \<and> e \<noteq> OtherErr)"

fun rd_data :: "read_result \<Rightarrow> bytes" where
  "rd_data (Rd d e) = d"

definition framed :: "bytes list \<Rightarrow> bytes \<Rightarrow> bytes" where
  "framed chunks leftovers = concat (map (\<lambda>c. c @ [nl]) chunks) @ leftovers"

text \<open>A read after which the loop of the reader goes on: some bytes and no error but end-of-stream.\<close>

fun live_read :: "read_result \<Rightarrow> bool" where
  "live_read (Rd d e) = (d \<noteq> [] \<and> e \<noteq> OtherErr)"

section \<open>The stages Parser and Reducer as interleaved steps\<close>

text \<open>
  \<open>Parser.Start\<close> and \<open>Reducer.Start\<close> are the same code but for the names: a loop
  \<open>for x := range inq\<close> that sends a token on \<open>limiter\<close> and starts a goroutine for
  \<open>x\<close>, then a loop that looks at \<open>len(limiter)\<close>, closes \<open>outq\<close> when it is \<open>0\<close>
  and sleeps otherwise. The goroutine (\<open>Parse\<close>, \<open>Reduce\<close>) computes its result, sends
  it on \<open>outq\<close> and then takes a token from \<open>limiter\<close>. The goroutines and the
  neighbouring stages run interleaved with \<open>Start\<close>; the model is a state and one step
  for each action that one of them can take.

  Where \<open>Start\<close> is: in the \<open>range\<close> loop waiting for an item; holding an item, about
  to send the token; token sent, about to start the goroutine; in the polling loop;
  returned after \<open>close(outq)\<close>.
\<close>

datatype 'a start_pc = Ranging | Acquiring 'a | Spawning 'a | Polling | Finished

text \<open>
  The state of a stage: the items in the input channel and whether it is closed; where
  \<open>Start\<close> is; \<open>len(limiter)\<close>; the goroutines that have not sent their result yet (each
  with its input) and the number of those that have sent it and not taken their token
  yet; the items in the output channel and whether it is closed; whether the process
  has panicked. The rest is history kept for the statements: how often \<open>close(outq)\<close>
  was run, the items ever put into the input channel, those \<open>Start\<close> received, the
  results ever sent on \<open>outq\<close> and those the next stage received.
\<close>

record ('a, 'b) stage =
  inq_items :: "'a list"
  in_closed :: bool
  pc :: "'a start_pc"
  limiter_len :: nat
  running :: "'a list"
  releasing :: nat
  outq_items :: "'b list"
  out_closed :: bool
  crashed :: bool
  closes :: nat
  offered :: "'a list"
  taken :: "'a list"
  sent :: "'b list"
  delivered :: "'b list"

text \<open>The state when \<open>Start\<close> begins: empty open channels, no goroutine.\<close>

definition init_stage :: "('a, 'b) stage" where
  "init_stage =
     \<lparr>inq_items = [], in_closed = False, pc = Ranging, limiter_len = 0, running = [], releasing = 0,
      outq_items = [], out_closed = False, crashed = False, closes = 0,
      offered = [], taken = [], sent = [], delivered = []\<rparr>"

text \<open>
  The actions: the stage before sends an item or closes the input channel; \<open>Start\<close>
  receives an item, finds the input closed and empty, sends the token, starts the
  goroutine, polls and closes, polls and sleeps; the goroutine at a position sends its
  result, a goroutine that has sent takes a token; the stage after receives a result.
\<close>

datatype 'a action =
    UpSend 'a | UpClose | Recv | RangeEnd | Acquire | Spawn
  | TaskSend nat | TaskRelease | PollClose | PollSleep | DownRecv

text \<open>
  One action in one state; \<open>None\<close> when the action cannot be taken there (a send on a
  full channel and a receive on an empty one block). \<open>P\<close> is the capacity of
  \<open>limiter\<close>, \<open>cap\<close> that of the channels, \<open>work\<close> what the goroutine computes
  (\<open>Inl\<close> when it panics). A panic, a send on a closed channel and a second
  \<open>close\<close> end the process: nothing is enabled after them.
\<close>

definition fire ::
  "nat \<Rightarrow> nat \<Rightarrow> ('a \<Rightarrow> failure + 'b) \<Rightarrow> 'a action \<Rightarrow> ('a, 'b) stage \<Rightarrow> ('a, 'b) stage option" where
  "fire P cap work a s =
     (if crashed s then None
      else case a of
        UpSend x \<Rightarrow>
          if \<not> in_closed s \<and> length (inq_items s) < cap
          then Some (s\<lparr>inq_items := inq_items s @ [x], offered := offered s @ [x]\<rparr>) else None
      | UpClose \<Rightarrow>
          if \<not> in_closed s then Some (s\<lparr>in_closed := True\<rparr>) else None
      | Recv \<Rightarrow>
          (case inq_items s of
             x # q \<Rightarrow>
               if pc s = Ranging
               then Some (s\<lparr>pc := Acquiring x, inq_items := q, taken := taken s @ [x]\<rparr>) else None
           | [] \<Rightarrow> None)
      | RangeEnd \<Rightarrow>
          if pc s = Ranging \<and> inq_items s = [] \<and> in_closed s then Some (s\<lparr>pc := Polling\<rparr>) else None
      | Acquire \<Rightarrow>
          (case pc s of
             Acquiring x \<Rightarrow>
               if limiter_len s < P then Some (s\<lparr>limiter_len := limiter_len s + 1, pc := Spawning x\<rparr>)
               else None
           | _ \<Rightarrow> None)
      | Spawn \<Rightarrow>
          (case pc s of
             Spawning x \<Rightarrow> Some (s\<lparr>running := running s @ [x], pc := Ranging\<rparr>)
           | _ \<Rightarrow> None)
      | TaskSend i \<Rightarrow>
          if i < length (running s)
          then (case work (running s ! i) of
                  Inl e \<Rightarrow> Some (s\<lparr>crashed := True\<rparr>)
                | Inr y \<Rightarrow>
                    if out_closed s then Some (s\<lparr>crashed := True\<rparr>)
                    else if length (outq_items s) < cap
                    then Some (s\<lparr>running := take i (running s) @ drop (Suc i) (running s),
                                 releasing := releasing s + 1,
                                 outq_items := outq_items s @ [y], sent := sent s @ [y]\<rparr>)
                    else None)
          else None
      | TaskRelease \<Rightarrow>
          if 0 < releasing s \<and> 0 < limiter_len s
          then Some (s\<lparr>releasing := releasing s - 1, limiter_len := limiter_len s - 1\<rparr>) else None
      | PollClose \<Rightarrow>
          if pc s = Polling \<and> limiter_len s = 0
          then (if out_closed s then Some (s\<lparr>crashed := True\<rparr>)
                else Some (s\<lparr>out_closed := True, closes := closes s + 1, pc := Finished\<rparr>))
          else None
      | PollSleep \<Rightarrow>
          if pc s = Polling \<and> limiter_len s \<noteq> 0 then Some s else None
      | DownRecv \<Rightarrow>
          (case outq_items s of
             y # q \<Rightarrow> Some (s\<lparr>outq_items := q, delivered := delivered s @ [y]\<rparr>)
           | [] \<Rightarrow> None))"

text \<open>A schedule: the actions taken one after the other, in any interleaving.\<close>

fun run ::
  "nat \<Rightarrow> nat \<Rightarrow> ('a \<Rightarrow> failure + 'b) \<Rightarrow> 'a action list \<Rightarrow> ('a, 'b) stage \<Rightarrow> ('a, 'b) stage option" where
  "run P cap work [] s = Some s"
| "run P cap work (a # as) s =
     (case fire P cap work a s of None \<Rightarrow> None | Some s' \<Rightarrow> run P cap work as s')"

text \<open>The item \<open>Start\<close> holds for which no goroutine runs yet, and the token sent for it.\<close>

fun pending :: "('a \<Rightarrow> 'c) \<Rightarrow> 'a start_pc \<Rightarrow> 'c list" where
  "pending work (Acquiring x) = [work x]"
| "pending work (Spawning x) = [work x]"
| "pending work _ = []"

fun token_held :: "'a start_pc \<Rightarrow> nat" where
  "token_held (Spawning x) = 1"
| "token_held _ = 0"

text \<open>
  What holds in every state a schedule reaches: the tokens in \<open>limiter\<close> are one for
  each goroutine that has not taken its token back, and one for an item whose goroutine
  is about to start; the output is closed exactly when \<open>Start\<close> has returned, after one
  \<open>close\<close>; \<open>Start\<close> polls only when the input is closed and empty; the results sent
  and the work not yet done account for every item received.
\<close>

definition stage_inv :: "('a \<Rightarrow> failure + 'b) \<Rightarrow> ('a, 'b) stage \<Rightarrow> bool" where
  "stage_inv work s =
     (limiter_len s = length (running s) + releasing s + token_held (pc s)
      \<and> (out_closed s = (pc s = Finished))
      \<and> closes s = (if out_closed s then 1 else 0)
      \<and> (pc s = Finished \<longrightarrow> limiter_len s = 0 \<and> \<not> crashed s)
      \<and> (pc s = Polling \<or> pc s = Finished \<longrightarrow> in_closed s \<and> inq_items s = [])
      \<and> offered s = taken s @ inq_items s
      \<and> sent s = delivered s @ outq_items s
      \<and> mset (map work (taken s))
          = mset (map Inr (sent s)) + mset (map work (running s)) + mset (pending work (pc s)))"

text \<open>The constants of the program: the two pool sizes and the capacity of the channels.\<close>

definition ParserPool :: nat where "ParserPool = 6"

definition ReducerPool :: nat where "ReducerPool = 2"

definition chansize :: nat where "chansize = 10000"

text \<open>The two stages: the state after a schedule, from the beginning.\<close>

definition Parser_Start :: "bytes action list \<Rightarrow> (bytes, conn list) stage option" where
  "Parser_Start acts = run ParserPool chansize Parse acts init_stage"

definition Reducer_Start :: "conn list action list \<Rightarrow> (conn list, tally) stage option" where
  "Reducer_Start acts = run ReducerPool chansize (\<lambda>data_slice. Inr (Reduce data_slice)) acts init_stage"

text \<open>
  The state in which a stage may have its output closed: closed once and not panicked;
  the input closed and empty and every item put into it received; no goroutine that
  has not sent its result, none that has not taken its token, no token left; the
  results sent are those of all the items; every result sent was received by the next
  stage or is still in the channel, where a closed channel still hands it out.
\<close>

definition closed_after_all_tasks :: "('a \<Rightarrow> failure + 'b) \<Rightarrow> ('a, 'b) stage \<Rightarrow> bool" where
  "closed_after_all_tasks work s =
     (closes s = 1 \<and> \<not> crashed s
      \<and> in_closed s \<and> inq_items s = [] \<and> taken s = offered s
      \<and> running s = [] \<and> releasing s = 0 \<and> limiter_len s = 0
      \<and> mset (map Inr (sent s)) = mset (map work (offered s))
      \<and> sent s = delivered s @ outq_items s)"

text \<open>Test data: a chunk of one line, its batch, and a schedule that runs one item through a stage.\<close>

definition sample_chunk :: bytes where
  "sample_chunk = conn_line ''128.252.0.1'' ''10.0.0.2'' ''100'' ''50''"

definition sample_batch :: "conn list" where
  "sample_batch = [zero_conn, \<lparr>orig = ''128.252.0.1'', resp = ''10.0.0.2'', bytes = 150\<rparr>]"

definition sample_schedule :: "'a \<Rightarrow> 'a action list" where
  "sample_schedule x =
     [UpSend x, UpClose, Recv, Acquire, Spawn, RangeEnd, PollSleep,
      TaskSend 0, PollSleep, TaskRelease, PollClose, DownRecv]"

text \<open>A bound on the steps a stage still has to take, for the proof that it can always finish.\<close>

fun pc_weight :: "'a start_pc \<Rightarrow> nat" where
  "pc_weight (Acquiring x) = 5"
| "pc_weight (Spawning x) = 4"
| "pc_weight Ranging = 1"
| "pc_weight _ = 0"

definition work_left :: "('a, 'b) stage \<Rightarrow> nat" where
  "work_left s =
     (if in_closed s then 0 else 1) + 6 * length (inq_items s) + pc_weight (pc s)
     + 2 * length (running s) + releasing s"

text \<open>The goroutine panics on none of the items.\<close>

definition total_on :: "('a \<Rightarrow> failure + 'b) \<Rightarrow> 'a list \<Rightarrow> bool" where
  "total_on work xs = list_all (\<lambda>x. \<not> isl (work x)) xs"

text \<open>The channels hold no more than their capacity.\<close>

definition within_capacity :: "nat \<Rightarrow> nat \<Rightarrow> ('a, 'b) stage \<Rightarrow> bool" where
  "within_capacity P cap s = (limiter_len s \<le> P \<and> length (inq_items s) \<le> cap \<and> length (outq_items s) \<le> cap)"

section \<open>Go maps as association lists\<close>


lemma map_of_add_to: "map_of (add_to m k v) = (map_of m)(k \<mapsto> val m k + v)"
  by (induction m k v rule: add_to.induct) (auto simp: val_def fun_eq_iff)

lemma keys_add_to: "fst ` set (add_to m k v) = insert k (fst ` set m)"
  by (induction m k v rule: add_to.induct) auto

lemma distinct_add_to: "distinct (map fst m) \<Longrightarrow> distinct (map fst (add_to m k v))"
proof (induction m k v rule: add_to.induct)
  case (1 k v) then show ?case by simp
next
  case (2 k' w m k v)
  then show ?case using keys_add_to[of m k v] by (auto simp flip: set_map)
qed

lemma val_add_to: "val (add_to m k v) k' = (if k' = k then val m k + v else val m k')"
  by (simp add: val_def map_of_add_to)

lemma val_merge_into: "val (merge_into final t) k = val final k + part k t"
  by (induction final t rule: merge_into.induct) (auto simp: val_add_to part_def)

lemma keys_merge_into: "fst ` set (merge_into final t) = fst ` set final \<union> fst ` set t"
  by (induction final t rule: merge_into.induct) (auto simp: keys_add_to)

lemma distinct_merge_into: "distinct (map fst final) \<Longrightarrow> distinct (map fst (merge_into final t))"
  by (induction final t rule: merge_into.induct) (auto simp: distinct_add_to)

lemma fst_Combiner_loop:
  "fst (Combiner_loop inq final outq) = foldl merge_into final inq"
  by (induction inq final outq rule: Combiner_loop.induct) auto

lemma val_foldl: "val (foldl merge_into final inq) k = val final k + sum_list (map (part k) inq)"
  by (induction inq arbitrary: final) (auto simp: val_merge_into add.assoc)

lemma keys_foldl: "fst ` set (foldl merge_into final inq) = fst ` set final \<union> (\<Union>t\<in>set inq. fst ` set t)"
  by (induction inq arbitrary: final) (auto simp: keys_merge_into)

lemma distinct_foldl: "distinct (map fst final) \<Longrightarrow> distinct (map fst (foldl merge_into final inq))"
  by (induction inq arbitrary: final) (auto simp: distinct_merge_into)

lemma part_distinct:
  "distinct (map fst t) \<Longrightarrow> part k t = (if k \<in> fst ` set t then the (map_of t k) else 0)"
proof (induction t)
  case Nil then show ?case by (simp add: part_def)
next
  case (Cons p t)
  then show ?case by (cases p) (auto simp: part_def image_iff)
qed

lemma part_mset: "part k t = sum_mset (image_mset snd (filter_mset (\<lambda>p. fst p = k) (mset t)))"
  unfolding part_def by (simp flip: sum_mset_sum_list mset_filter mset_map)


lemma map_of_val: "map_of m k = (if k \<in> fst ` set m then Some (val m k) else None)"
  by (auto simp: val_def map_of_eq_None_iff split: option.splits)

lemma sum_list_filter_zero:
  fixes f :: "'a \<Rightarrow> 64 word"
  shows "(\<And>x. x \<in> set xs \<Longrightarrow> \<not> P x \<Longrightarrow> f x = 0) \<Longrightarrow> sum_list (map f xs) = sum_list (map f (filter P xs))"
  by (induction xs) auto

lemma total_mset:
  "sum_list (map (part k) inq) = sum_mset (image_mset (part_m k) (mset (map mset inq)))"
proof -
  have "map (part k) inq = map (part_m k) (map mset inq)"
    by (simp add: part_mset part_m_def)
  then show ?thesis
    by (metis mset_map sum_mset_sum_list)
qed

lemma keys_mset:
  "(\<Union>t\<in>set inq. fst ` set t) = (\<Union>M\<in>set_mset (mset (map mset inq)). fst ` set_mset M)"
  by auto

lemma val_final: "val (Combiner_final inq) k = sum_list (map (part k) inq)"
  unfolding Combiner_final_def fst_Combiner_loop val_foldl by (simp add: val_def)

lemma keys_final: "fst ` set (Combiner_final inq) = (\<Union>t\<in>set inq. fst ` set t)"
  by (simp add: Combiner_final_def fst_Combiner_loop keys_foldl)

lemma final_perm:
  assumes "mset (map mset inq') = mset (map mset inq)"
  shows "map_of (Combiner_final inq') = map_of (Combiner_final inq)"
proof
  fix k
  have v: "val (Combiner_final inq') k = val (Combiner_final inq) k"
    unfolding val_final total_mset assms ..
  have "fst ` set (Combiner_final inq') = fst ` set (Combiner_final inq)"
    unfolding keys_final keys_mset assms ..
  with v show "map_of (Combiner_final inq') k = map_of (Combiner_final inq) k"
    by (simp add: map_of_val)
qed

lemma keys_Reduce_loop:
  "fst ` set (Reduce_loop cs tt) =
     fst ` set tt \<union> {k. HasPrefix k ''128.252.'' \<and> (\<exists>c\<in>set cs. orig c = k \<or> resp c = k)}"
  by (induction cs tt rule: Reduce_loop.induct) (auto simp: keys_add_to Let_def)

lemma val_Reduce_loop:
  "val (Reduce_loop cs tt) k =
     val tt k + (if HasPrefix k ''128.252.''
                 then (\<Sum>c\<leftarrow>cs. (if orig c = k then bytes c else 0) + (if resp c = k then bytes c else 0))
                 else 0)"
  by (induction cs tt rule: Reduce_loop.induct) (auto simp: val_add_to Let_def)

lemma distinct_Reduce_loop:
  "distinct (map fst tt) \<Longrightarrow> distinct (map fst (Reduce_loop cs tt))"
  by (induction cs tt rule: Reduce_loop.induct) (auto simp: distinct_add_to Let_def)

section \<open>The report prints only keys of its map\<close>

lemma Report_scan_ips:
  "(\<And>v l. swapped v = Some l \<Longrightarrow> set l \<subseteq> K) \<Longrightarrow> fst ` set tt \<subseteq> K \<Longrightarrow>
   Report_scan tt swapped keys tbytes = (swapped', keys', tbytes') \<Longrightarrow>
   swapped' v = Some l \<Longrightarrow> set l \<subseteq> K"
proof (induction tt swapped keys tbytes arbitrary: v l rule: Report_scan.induct)
  case (1 swapped keys tbytes)
  then show ?case by simp
next
  case (2 k w tt swapped keys tbytes)
  let ?sw = "case swapped w of Some list \<Rightarrow> swapped | None \<Rightarrow> swapped(w \<mapsto> [k])"
  have inv: "set l' \<subseteq> K" if "?sw v' = Some l'" for v' l'
    using that "2.prems"(1,2) by (auto split: option.splits if_splits)
  have sub: "fst ` set tt \<subseteq> K" using "2.prems"(2) by auto
  from "2.prems"(3) have run: "Report_scan tt ?sw (keys @ [w]) (tbytes + w) = (swapped', keys', tbytes')"
    by simp
  show ?case
    by (rule "2.IH"[OF inv sub run "2.prems"(4)])
qed

lemma print_ips_ips:
  "print_ips ips k tbytes n out = (kg, n', out') \<Longrightarrow> fst ` set out' \<subseteq> fst ` set out \<union> set ips"
  by (induction ips k tbytes n out rule: print_ips.induct) (auto split: if_splits)

lemma print_keys_ips:
  "(\<And>v l. swapped v = Some l \<Longrightarrow> set l \<subseteq> K) \<Longrightarrow> fst ` set out \<subseteq> K \<Longrightarrow>
   fst ` set (print_keys keys swapped tbytes n out) \<subseteq> K"
proof (induction keys swapped tbytes n out rule: print_keys.induct)
  case (1 swapped tbytes n out)
  then show ?case by simp
next
  case (2 k keys swapped tbytes n out)
  let ?ips = "case swapped k of None \<Rightarrow> [] | Some l \<Rightarrow> l"
  obtain kg n' out' where r: "print_ips ?ips k tbytes n out = (kg, n', out')"
    by (cases "print_ips ?ips k tbytes n out") auto
  have "set ?ips \<subseteq> K"
  proof (cases "swapped k")
    case None
    then show ?thesis by simp
  next
    case (Some l)
    with "2.prems"(1)[OF Some] show ?thesis by simp
  qed
  with print_ips_ips[OF r] "2.prems"(2) have o: "fst ` set out' \<subseteq> K" by blast
  show ?case
  proof (cases kg)
    case True
    have "fst ` set (print_keys keys swapped tbytes n' out') \<subseteq> K"
      by (rule "2.IH"[OF refl r[symmetric] refl _ "2.prems"(1) o]) (simp_all add: True)
    with r True show ?thesis by simp
  next
    case False
    with r o show ?thesis by simp
  qed
qed

lemma Report_ips: "fst ` set (Report tt) \<subseteq> fst ` set tt"
proof -
  obtain sw ks tb where r: "Report_scan tt Map.empty (replicate (length tt) 0) 0 = (sw, ks, tb)"
    by (cases "Report_scan tt Map.empty (replicate (length tt) 0) 0") auto
  have inv: "set l \<subseteq> fst ` set tt" if "sw v = Some l" for v l
    by (rule Report_scan_ips[OF _ _ r that]) simp_all
  have "fst ` set (print_keys (rev (sort_key sint ks)) sw tb 0 []) \<subseteq> fst ` set tt"
    by (rule print_keys_ips[OF inv]) simp_all
  with r show ?thesis by (simp add: Report_def)
qed

lemma keys_Reduce: "fst ` set (Reduce rs) \<subseteq> {k. HasPrefix k ''128.252.''}"
  unfolding Reduce_def keys_Reduce_loop by auto

section \<open>Parsing lines\<close>

lemma conn_line_fields: "Split (conn_line ''128.252.0.1'' ''10.0.0.2'' ''100'' ''50'') tab = 
   [''1.0'', ''C1'', ''128.252.0.1'', ''49153'', ''10.0.0.2'', ''80'', ''tcp'', ''-'',
               ''0.1'', ''0'', ''0'', ''SF'', ''T'', ''0'', ''D'', ''3'', ''100'', ''4'', ''50'']"
  by (simp add: conn_line_def)

lemma parse_line_ok: "19 \<le> length (Split line tab) \<Longrightarrow> parse_line line = Inr (conn_of line)"
  by (simp add: parse_line_def index_def conn_of_def Let_def)


lemma conn_of_conn_line: "conn_of (conn_line ''128.252.0.1'' ''10.0.0.2'' ''100'' ''50'')
    = \<lparr>orig = ''128.252.0.1'', resp = ''10.0.0.2'', bytes = 150\<rparr>"
  unfolding conn_of_def conn_line_fields by (simp add: Atoi_def is_digit_def)

lemma Parse_conn_line: "Parse (conn_line ''128.252.0.1'' ''10.0.0.2'' ''100'' ''50'')
    = Inr [zero_conn, \<lparr>orig = ''128.252.0.1'', resp = ''10.0.0.2'', bytes = 150\<rparr>]"
proof -
  have l: "Split (conn_line ''128.252.0.1'' ''10.0.0.2'' ''100'' ''50'') nl
             = [conn_line ''128.252.0.1'' ''10.0.0.2'' ''100'' ''50'']"
    by (simp add: conn_line_def)
  have p: "parse_line (conn_line ''128.252.0.1'' ''10.0.0.2'' ''100'' ''50'')
      = Inr \<lparr>orig = ''128.252.0.1'', resp = ''10.0.0.2'', bytes = 150\<rparr>"
    by (subst parse_line_ok) (simp_all add: conn_line_fields conn_of_conn_line)
  have i: "index (conn_line ''128.252.0.1'' ''10.0.0.2'' ''100'' ''50'') 0 = Inr (CHR ''1'')"
    by (simp add: conn_line_def index_def)
  show ?thesis
    unfolding Parse_def l by (simp add: i p)
qed










section \<open>Reader: reads that fill the block\<close>

text \<open>
  When every read fills the buffer, the loop loses and adds no byte: the chunks sent,
  each with its newline, followed by the leftovers, are the stream read so far.
\<close>

lemma find_nl_Some:
  "find_nl buffer n = Some i \<Longrightarrow> i \<le> n \<and> buffer ! i = nl"
  by (induction n) (auto split: if_splits)

lemma framed_snoc: "framed (out @ [c]) lo = framed out (c @ nl # lo)"
  by (simp add: framed_def)

lemma framed_append: "framed out (lo @ d) = framed out lo @ d"
  by (simp add: framed_def)

lemma Reader_full_reads:
  assumes "0 < bsize" and "list_all (full_read bsize) rs"
  shows "\<exists>out' lo'. Reader_loop bsize rs lo out = Inr (out', lo')
           \<and> framed out' lo' = framed out lo @ concat (map rd_data rs)"
  using assms(2)
proof (induction rs arbitrary: lo out)
  case Nil
  then show ?case by simp
next
  case (Cons r rs)
  obtain d e where r: "r = Rd d e" by (cases r)
  with Cons.prems assms(1) have d: "length d = bsize" "e \<noteq> OtherErr" "d \<noteq> []"
    and rest: "list_all (full_read bsize) rs" by auto
  show ?case
  proof (cases "find_nl d (length d - 1)")
    case None
    from Cons.IH[OF rest, of "lo @ d" out]
    obtain out' lo' where "Reader_loop bsize rs (lo @ d) out = Inr (out', lo')"
      "framed out' lo' = framed out (lo @ d) @ concat (map rd_data rs)" by blast
    with None d r assms(1) show ?thesis
      by (simp add: framed_append)
  next
    case (Some i)
    from find_nl_Some[OF Some] d have i: "i < length d" "d ! i = nl"
      by (cases d; simp)+
    then have split: "take i d @ nl # drop (Suc i) d = d"
      by (metis id_take_nth_drop)
    from Cons.IH[OF rest, of "drop (i + 1) d" "out @ [lo @ take i d]"]
    obtain out' lo' where "Reader_loop bsize rs (drop (i + 1) d) (out @ [lo @ take i d]) = Inr (out', lo')"
      "framed out' lo' = framed (out @ [lo @ take i d]) (drop (i + 1) d) @ concat (map rd_data rs)"
      by blast
    moreover have "framed (out @ [lo @ take i d]) (drop (i + 1) d) = framed out lo @ d"
      using split by (simp add: framed_def)
    ultimately show ?thesis
      using Some d r assms(1) by simp
  qed
qed

section \<open>Fatal paths of the reader\<close>

lemma Reader_loop_error:
  "list_all live_read pre \<Longrightarrow>
   Reader_loop bsize (pre @ Rd d OtherErr # post) leftovers outq = Inl FatalExit"
proof (induction pre arbitrary: leftovers outq)
  case Nil
  then show ?case by simp
next
  case (Cons r pre)
  obtain d' e' where r: "r = Rd d' e'" by (cases r)
  with Cons.prems have "d' \<noteq> []" "e' \<noteq> OtherErr" and rest: "list_all live_read pre"
    by simp_all
  then show ?case
    by (simp add: r Let_def Cons.IH[OF rest] split: option.splits)
qed

lemma pipeline_Reader_fails:
  "Reader_Start filename bsize w = Inl e \<Longrightarrow> pipeline visit filename bsize w = Inl e"
  by (simp add: pipeline_def)

lemma Reader_truncated_stream: "Reader_Start ''conn.log.gz'' 80
     (gz_proc [Rd (conn_line ''128.252.0.1'' ''10.0.0.2'' ''100'' ''50'' @ [nl] @ ''1.0'') NoErr, Rd [] EOF] 1)
   = Inr [conn_line ''128.252.0.1'' ''10.0.0.2'' ''100'' ''50'']"
  by (simp add: Reader_Start_def GetReader_def HasSuffix_def gz_proc_def conn_line_def)

section \<open>Invariants and progress of a stage\<close>

lemma stage_inv_init: "stage_inv work init_stage"
  by (simp add: stage_inv_def init_stage_def)

lemma mset_remove_nth:
  "i < length xs \<Longrightarrow> mset (map f xs) = add_mset (f (xs ! i)) (mset (map f (take i xs @ drop (Suc i) xs)))"
proof -
  assume i: "i < length xs"
  then have "xs = take i xs @ xs ! i # drop (Suc i) xs"
    by (simp add: id_take_nth_drop)
  then have "mset (map f xs) = mset (map f (take i xs @ xs ! i # drop (Suc i) xs))"
    by simp
  then show ?thesis by simp
qed

lemma stage_inv_fire:
  assumes "stage_inv work s" and "fire P cap work a s = Some s'"
  shows "stage_inv work s'"
proof (cases a)
  case (UpSend x)
  with assms show ?thesis
    by (auto simp: fire_def stage_inv_def split: if_splits)
next
  case UpClose
  with assms show ?thesis
    by (auto simp: fire_def stage_inv_def split: if_splits)
next
  case Recv
  with assms show ?thesis
    by (auto simp: fire_def stage_inv_def split: if_splits list.splits)
next
  case RangeEnd
  with assms show ?thesis
    by (auto simp: fire_def stage_inv_def split: if_splits)
next
  case Acquire
  with assms show ?thesis
    by (auto simp: fire_def stage_inv_def split: if_splits start_pc.splits)
next
  case Spawn
  with assms show ?thesis
    by (auto simp: fire_def stage_inv_def split: if_splits start_pc.splits)
next
  case (TaskSend i)
  show ?thesis
  proof (cases "i < length (running s) \<and> \<not> crashed s")
    case False
    with assms TaskSend show ?thesis by (auto simp: fire_def split: if_splits)
  next
    case True
    then have i: "i < length (running s)" by simp
    have lim: "limiter_len s \<noteq> 0" using assms(1) i by (auto simp: stage_inv_def)
    then have nf: "pc s \<noteq> Finished" "\<not> out_closed s" using assms(1) by (auto simp: stage_inv_def)
    note rm = mset_remove_nth[OF i, of work]
    show ?thesis
    proof (cases "work (running s ! i)")
      case (Inl e)
      with assms TaskSend True nf show ?thesis
        by (auto simp: fire_def stage_inv_def split: if_splits)
    next
      case (Inr y)
      with assms TaskSend True nf rm show ?thesis
        by (auto simp: fire_def stage_inv_def split: if_splits)
    qed
  qed
next
  case TaskRelease
  with assms show ?thesis
    by (auto simp: fire_def stage_inv_def split: if_splits)
next
  case PollClose
  with assms show ?thesis
    by (auto simp: fire_def stage_inv_def split: if_splits)
next
  case PollSleep
  with assms show ?thesis
    by (auto simp: fire_def stage_inv_def split: if_splits)
next
  case DownRecv
  with assms show ?thesis
    by (auto simp: fire_def stage_inv_def split: if_splits list.splits)
qed

lemma stage_inv_run:
  "stage_inv work s \<Longrightarrow> run P cap work acts s = Some s' \<Longrightarrow> stage_inv work s'"
proof (induction acts arbitrary: s)
  case Nil
  then show ?case by simp
next
  case (Cons a acts)
  then obtain s1 where f: "fire P cap work a s = Some s1" and r: "run P cap work acts s1 = Some s'"
    by (auto split: option.splits)
  from stage_inv_fire[OF Cons.prems(1) f] r show ?case
    by (rule Cons.IH)
qed

lemma stage_closing:
  assumes "run P cap work acts init_stage = Some s"
  shows "closes s \<le> 1 \<and> (out_closed s \<longrightarrow> closed_after_all_tasks work s)"
proof -
  have inv: "stage_inv work s"
    using stage_inv_init assms by (rule stage_inv_run)
  then have "closes s \<le> 1"
    by (simp add: stage_inv_def)
  moreover have "closed_after_all_tasks work s" if c: "out_closed s"
  proof -
    from inv c have f: "pc s = Finished" by (simp add: stage_inv_def)
    with inv c show ?thesis
      by (auto simp: stage_inv_def closed_after_all_tasks_def)
  qed
  ultimately show ?thesis by blast
qed

lemma Parser_sample_run:
  "Parser_Start (sample_schedule sample_chunk) =
     Some \<lparr>inq_items = [], in_closed = True, pc = Finished, limiter_len = 0, running = [], releasing = 0,
      outq_items = [], out_closed = True, crashed = False, closes = 1,
      offered = [sample_chunk], taken = [sample_chunk], sent = [sample_batch],
      delivered = [sample_batch]\<rparr>"
proof -
  have p: "Parse sample_chunk = Inr sample_batch"
    unfolding sample_chunk_def sample_batch_def by (rule Parse_conn_line)
  show ?thesis
    by (simp add: Parser_Start_def sample_schedule_def fire_def init_stage_def p
        ParserPool_def chansize_def)
qed

lemma Reducer_sample_run:
  "Reducer_Start (sample_schedule sample_batch) =
     Some \<lparr>inq_items = [], in_closed = True, pc = Finished, limiter_len = 0, running = [], releasing = 0,
      outq_items = [], out_closed = True, crashed = False, closes = 1,
      offered = [sample_batch], taken = [sample_batch], sent = [Reduce sample_batch],
      delivered = [Reduce sample_batch]\<rparr>"
  by (simp add: Reducer_Start_def sample_schedule_def fire_def init_stage_def
        ReducerPool_def chansize_def)

lemma within_capacity_init: "within_capacity P cap init_stage"
  by (simp add: within_capacity_def init_stage_def)

lemma within_capacity_fire:
  "within_capacity P cap s \<Longrightarrow> fire P cap work a s = Some s' \<Longrightarrow> within_capacity P cap s'"
  by (cases a) (auto simp: fire_def within_capacity_def split: if_splits list.splits start_pc.splits sum.splits)

lemma within_capacity_run:
  "within_capacity P cap s \<Longrightarrow> run P cap work acts s = Some s' \<Longrightarrow> within_capacity P cap s'"
proof (induction acts arbitrary: s)
  case Nil
  then show ?case by simp
next
  case (Cons a acts)
  then obtain s1 where f: "fire P cap work a s = Some s1" and r: "run P cap work acts s1 = Some s'"
    by (auto split: option.splits)
  from within_capacity_fire[OF Cons.prems(1) f] r show ?case
    by (rule Cons.IH)
qed

lemma run_append:
  "run P cap work (as @ bs) s =
     (case run P cap work as s of None \<Rightarrow> None | Some s' \<Rightarrow> run P cap work bs s')"
  by (induction as arbitrary: s) (auto split: option.splits)

lemma running_total:
  assumes inv: "stage_inv work s" and tot: "total_on work (offered s)" and i: "i < length (running s)"
  shows "\<exists>y. work (running s ! i) = Inr y"
proof -
  have "work (running s ! i) \<in># mset (map work (running s))"
    using i by simp
  then have "work (running s ! i) \<in># mset (map work (taken s))"
    using inv by (simp add: stage_inv_def)
  then obtain x where x: "x \<in> set (taken s)" "work x = work (running s ! i)"
    by auto
  from inv x(1) have "x \<in> set (offered s)" by (simp add: stage_inv_def)
  with tot have "\<not> isl (work x)"
    by (simp add: total_on_def list_all_iff)
  then have "\<exists>y. work x = Inr y"
    by (cases "work x") auto
  with x(2) show ?thesis by simp
qed

lemma finish_task:
  assumes inv: "stage_inv work s" and nc: "\<not> crashed s" and noc: "\<not> out_closed s"
    and cap: "0 < cap" and bd: "within_capacity P cap s" and tot: "total_on work (offered s)"
    and busy: "running s \<noteq> [] \<or> 0 < releasing s"
  shows "\<exists>acts s1. run P cap work acts s = Some s1 \<and> \<not> crashed s1 \<and> offered s1 = offered s
           \<and> work_left s1 < work_left s"
proof (cases "0 < releasing s")
  case True
  with inv have "0 < limiter_len s" by (simp add: stage_inv_def)
  with True nc have
    "run P cap work [TaskRelease] s = Some (s\<lparr>releasing := releasing s - 1, limiter_len := limiter_len s - 1\<rparr>)"
    by (simp add: fire_def)
  moreover have "work_left (s\<lparr>releasing := releasing s - 1, limiter_len := limiter_len s - 1\<rparr>) < work_left s"
    using True by (simp add: work_left_def)
  ultimately show ?thesis using nc by (intro exI conjI) (assumption, simp_all)
next
  case False
  with busy have r: "0 < length (running s)" by simp
  from running_total[OF inv tot r] obtain y where y: "work (running s ! 0) = Inr y" by blast
  let ?send = "\<lambda>t. t\<lparr>running := take 0 (running t) @ drop (Suc 0) (running t),
                      releasing := releasing t + 1,
                      outq_items := outq_items t @ [y], sent := sent t @ [y]\<rparr>"
  show ?thesis
  proof (cases "length (outq_items s) < cap")
    case True
    with r y nc noc have "run P cap work [TaskSend 0] s = Some (?send s)"
      by (simp add: fire_def)
    moreover have "work_left (?send s) < work_left s"
      using r by (cases "running s") (simp_all add: work_left_def)
    ultimately show ?thesis using nc by (intro exI conjI) (assumption, simp_all)
  next
    case False
    with cap obtain z q where o: "outq_items s = z # q" by (cases "outq_items s") auto
    let ?s1 = "s\<lparr>outq_items := q, delivered := delivered s @ [z]\<rparr>"
    have f1: "fire P cap work DownRecv s = Some ?s1"
      using nc o by (simp add: fire_def)
    have inv1: "stage_inv work ?s1" by (rule stage_inv_fire[OF inv f1])
    have "length (outq_items ?s1) < cap"
      using bd o by (simp add: within_capacity_def)
    then have "run P cap work [DownRecv, TaskSend 0] s = Some (?send ?s1)"
      using f1 r y nc noc by (simp add: fire_def)
    moreover have "work_left (?send ?s1) < work_left s"
      using r by (cases "running s") (simp_all add: work_left_def)
    ultimately show ?thesis using nc by (intro exI conjI) (assumption, simp_all)
  qed
qed

lemma progress_step:
  assumes inv: "stage_inv work s" and bd: "within_capacity P cap s" and nc: "\<not> crashed s"
    and P: "0 < P" and cap: "0 < cap" and tot: "total_on work (offered s)"
    and noc: "\<not> out_closed s"
  shows "\<exists>acts s1. run P cap work acts s = Some s1 \<and> \<not> crashed s1 \<and> offered s1 = offered s
           \<and> (out_closed s1 \<or> work_left s1 < work_left s)"
proof -
  note ft = finish_task[OF inv nc noc cap bd tot]
  show ?thesis
  proof (cases "pc s")
    case Finished
    with inv noc show ?thesis by (simp add: stage_inv_def)
  next
    case Polling
    show ?thesis
    proof (cases "limiter_len s = 0")
      case True
      with Polling nc noc have
        "run P cap work [PollClose] s
           = Some (s\<lparr>out_closed := True, closes := closes s + 1, pc := Finished\<rparr>)"
        by (simp add: fire_def)
      then show ?thesis using nc by (intro exI conjI) (assumption, simp_all)
    next
      case False
      with inv Polling have "running s \<noteq> [] \<or> 0 < releasing s"
        by (auto simp: stage_inv_def)
      from ft[OF this] show ?thesis by blast
    qed
  next
    case Ranging
    show ?thesis
    proof (cases "inq_items s")
      case (Cons x q)
      with Ranging nc have
        "run P cap work [Recv] s = Some (s\<lparr>pc := Acquiring x, inq_items := q, taken := taken s @ [x]\<rparr>)"
        by (simp add: fire_def)
      moreover have "work_left (s\<lparr>pc := Acquiring x, inq_items := q, taken := taken s @ [x]\<rparr>) < work_left s"
        using Cons Ranging by (simp add: work_left_def)
      ultimately show ?thesis using nc by (intro exI conjI) (assumption, simp_all)
    next
      case Nil
      show ?thesis
      proof (cases "in_closed s")
        case True
        with Nil Ranging nc have "run P cap work [RangeEnd] s = Some (s\<lparr>pc := Polling\<rparr>)"
          by (simp add: fire_def)
        moreover have "work_left (s\<lparr>pc := Polling\<rparr>) < work_left s"
          using Ranging by (simp add: work_left_def)
        ultimately show ?thesis using nc by (intro exI conjI) (assumption, simp_all)
      next
        case False
        with nc have "run P cap work [UpClose] s = Some (s\<lparr>in_closed := True\<rparr>)"
          by (simp add: fire_def)
        moreover have "work_left (s\<lparr>in_closed := True\<rparr>) < work_left s"
          using False by (simp add: work_left_def)
        ultimately show ?thesis using nc by (intro exI conjI) (assumption, simp_all)
      qed
    qed
  next
    case (Acquiring x)
    show ?thesis
    proof (cases "limiter_len s < P")
      case True
      with Acquiring nc have
        "run P cap work [Acquire] s = Some (s\<lparr>limiter_len := limiter_len s + 1, pc := Spawning x\<rparr>)"
        by (simp add: fire_def)
      moreover have "work_left (s\<lparr>limiter_len := limiter_len s + 1, pc := Spawning x\<rparr>) < work_left s"
        using Acquiring by (simp add: work_left_def)
      ultimately show ?thesis using nc by (intro exI conjI) (assumption, simp_all)
    next
      case False
      with P inv Acquiring have "running s \<noteq> [] \<or> 0 < releasing s"
        by (auto simp: stage_inv_def)
      from ft[OF this] show ?thesis by blast
    qed
  next
    case (Spawning x)
    with nc have
      "run P cap work [Spawn] s = Some (s\<lparr>running := running s @ [x], pc := Ranging\<rparr>)"
      by (simp add: fire_def)
    moreover have "work_left (s\<lparr>running := running s @ [x], pc := Ranging\<rparr>) < work_left s"
      using Spawning by (simp add: work_left_def)
    ultimately show ?thesis using nc by (intro exI conjI) (assumption, simp_all)
  qed
qed

lemma stage_can_close:
  assumes "stage_inv work s" and "within_capacity P cap s" and "\<not> crashed s"
    and P: "0 < P" and cap: "0 < cap" and "total_on work (offered s)"
  shows "\<exists>acts s'. run P cap work acts s = Some s' \<and> out_closed s' \<and> offered s' = offered s"
  using assms(1,2,3,6)
proof (induction "work_left s" arbitrary: s rule: less_induct)
  case less
  show ?case
  proof (cases "out_closed s")
    case True
    then have "run P cap work [] s = Some s \<and> out_closed s \<and> offered s = offered s" by simp
    then show ?thesis by blast
  next
    case False
    from progress_step[OF less.prems(1,2,3) P cap less.prems(4) False]
    obtain acts s1 where r: "run P cap work acts s = Some s1" and nc1: "\<not> crashed s1"
      and o1: "offered s1 = offered s" and d: "out_closed s1 \<or> work_left s1 < work_left s"
      by blast
    show ?thesis
    proof (cases "out_closed s1")
      case True
      with r o1 show ?thesis by blast
    next
      case False
      with d have lt: "work_left s1 < work_left s" by simp
      have i1: "stage_inv work s1" by (rule stage_inv_run[OF less.prems(1) r])
      have b1: "within_capacity P cap s1" by (rule within_capacity_run[OF less.prems(2) r])
      have t1: "total_on work (offered s1)" using less.prems(4) o1 by simp
      from less.hyps[OF lt i1 b1 nc1 t1]
      obtain acts' s' where r': "run P cap work acts' s1 = Some s'" and c: "out_closed s'"
        and o': "offered s' = offered s1" by blast
      have "run P cap work (acts @ acts') s = Some s'"
        by (simp add: run_append r r')
      with c o' o1 show ?thesis by (intro exI conjI) (assumption, simp_all)
    qed
  qed
qed

lemma stage_never_crashes_fire:
  assumes "stage_inv work s" and "\<not> crashed s" and "\<And>x. \<not> isl (work x)"
    and "fire P cap work a s = Some s'"
  shows "\<not> crashed s'"
proof (cases a)
  case (TaskSend i)
  show ?thesis
  proof (cases "i < length (running s)")
    case True
    with assms(1) have "limiter_len s \<noteq> 0" by (auto simp: stage_inv_def)
    with assms(1) have "\<not> out_closed s" by (auto simp: stage_inv_def)
    moreover obtain y where "work (running s ! i) = Inr y"
      using assms(3)[of "running s ! i"] by (cases "work (running s ! i)") auto
    ultimately show ?thesis
      using assms(2,4) TaskSend True by (auto simp: fire_def split: if_splits)
  next
    case False
    with assms TaskSend show ?thesis by (auto simp: fire_def split: if_splits)
  qed
next
  case PollClose
  with assms show ?thesis
    by (auto simp: fire_def stage_inv_def split: if_splits)
qed (use assms in \<open>auto simp: fire_def split: if_splits list.splits start_pc.splits\<close>)

lemma stage_never_crashes:
  assumes "\<And>x. \<not> isl (work x)"
  shows "stage_inv work s \<Longrightarrow> \<not> crashed s \<Longrightarrow> run P cap work acts s = Some s' \<Longrightarrow> \<not> crashed s'"
proof (induction acts arbitrary: s)
  case Nil
  then show ?case by simp
next
  case (Cons a acts)
  then obtain s1 where f: "fire P cap work a s = Some s1" and r: "run P cap work acts s1 = Some s'"
    by (auto split: option.splits)
  have "stage_inv work s1" by (rule stage_inv_fire[OF Cons.prems(1) f])
  moreover have "\<not> crashed s1"
    by (rule stage_never_crashes_fire[OF Cons.prems(1,2) assms f])
  ultimately show ?case using r by (rule Cons.IH)
qed

lemma total_on_always: "(\<And>x. \<not> isl (work x)) \<Longrightarrow> total_on work xs"
  by (simp add: total_on_def list_all_iff)

lemma stage_closable:
  assumes r: "run P cap work acts init_stage = Some s" and nc: "\<not> crashed s"
    and P: "0 < P" and cap: "0 < cap" and tot: "total_on work (offered s)"
  shows "\<exists>more s'. run P cap work (acts @ more) init_stage = Some s' \<and> out_closed s'
           \<and> offered s' = offered s"
proof -
  have "stage_inv work s" using stage_inv_init r by (rule stage_inv_run)
  moreover have "within_capacity P cap s" using within_capacity_init r by (rule within_capacity_run)
  ultimately obtain more s' where "run P cap work more s = Some s'" "out_closed s'"
      "offered s' = offered s"
    using stage_can_close[OF _ _ nc P cap tot] by blast
  then have "run P cap work (acts @ more) init_stage = Some s' \<and> out_closed s'
           \<and> offered s' = offered s"
    by (simp add: run_append r)
  then show ?thesis by blast
qed

section \<open>Reader: the final line and short reads\<close>

text \<open>
  C3. The claim: a final line with no trailing terminator is still sent as the final
  chunk. The code: a file \<open>abc\<close> read with block size 3 fills one block exactly; the
  inner loop reaches \<open>end_it = 0\<close>, the block goes to the leftovers, the next read
  returns 0 and the queue is closed with nothing sent. The same happens to the tail
  \<open>b\<close> of the file \<open>a\<newline>b\<close>.
\<close>

theorem Reader_drops_final_line:
  "Reader_Start ''conn.log'' 3 (plain_file [Rd ''abc'' NoErr, Rd [] EOF]) = Inr []
   \<and> Reader_loop 3 [Rd ''abc'' NoErr, Rd [] EOF] [] [] = Inr ([], ''abc'')
   \<and> Reader_Start ''conn.log'' 3 (plain_file [Rd [CHR ''a'', nl, CHR ''b''] NoErr, Rd [] EOF])
       = Inr [''a'']"
  by (simp add: Reader_Start_def GetReader_def HasSuffix_def plain_file_def)

text \<open>
  C4. The claim: every chunk holds the bytes of its lines and no byte that was not read.
  The code: with block size 4, a pipe that delivers the three bytes \<open>a\<newline>b\<close> and
  then the two bytes \<open>c\<newline>\<close> (the stream \<open>a\<newline>bc\<newline>\<close>): the line \<open>bc\<close> spans
  the two reads, and the chunk sent for it is \<open>b\<close>, a zero byte of the first buffer's
  unused end, \<open>c\<close>.
\<close>

theorem Reader_short_read_padding:
  "Reader_Start ''conn.log.gz'' 4
     (gz_proc [Rd [CHR ''a'', nl, CHR ''b''] NoErr, Rd [CHR ''c'', nl] NoErr, Rd [] EOF] 0)
   = Inr [''a'', [CHR ''b'', zero_byte, CHR ''c'']]"
  by (simp add: Reader_Start_def GetReader_def HasSuffix_def gz_proc_def)

section \<open>Combiner: the fold is exact and does not depend on the order\<close>

text \<open>
  C1. For partial results that are Go maps (one entry for each key), the map built by
  \<open>Combiner.Start\<close> has a key exactly when some partial result has it, and holds for
  it the sum (of 64-bit integers) of that key's values over the partial results that
  contain it; the map has one entry for each key; and the same partial results arriving
  in another order, each ranged over in another order, give the same map.
\<close>

theorem Combiner_fold_exact:
  assumes "\<forall>t\<in>set inq. distinct (map fst t)"
  shows "map_of (Combiner_final inq) k =
           (if \<exists>t\<in>set inq. k \<in> fst ` set t
            then Some (\<Sum>t\<leftarrow>filter (\<lambda>t. k \<in> fst ` set t) inq. the (map_of t k))
            else None)
         \<and> distinct (map fst (Combiner_final inq))
         \<and> (\<forall>inq'. mset (map mset inq') = mset (map mset inq)
              \<longrightarrow> map_of (Combiner_final inq') = map_of (Combiner_final inq))"
proof (intro conjI allI impI)
  have p: "part k t = (if k \<in> fst ` set t then the (map_of t k) else 0)" if "t \<in> set inq" for t
    using assms that by (simp add: part_distinct)
  have "sum_list (map (part k) inq) = sum_list (map (part k) (filter (\<lambda>t. k \<in> fst ` set t) inq))"
    by (rule sum_list_filter_zero) (simp add: p)
  also have "\<dots> = (\<Sum>t\<leftarrow>filter (\<lambda>t. k \<in> fst ` set t) inq. the (map_of t k))"
    by (rule arg_cong[where f = sum_list], rule map_cong) (auto simp: p)
  finally have s: "val (Combiner_final inq) k
      = (\<Sum>t\<leftarrow>filter (\<lambda>t. k \<in> fst ` set t) inq. the (map_of t k))"
    by (simp add: val_final)
  show "map_of (Combiner_final inq) k =
           (if \<exists>t\<in>set inq. k \<in> fst ` set t
            then Some (\<Sum>t\<leftarrow>filter (\<lambda>t. k \<in> fst ` set t) inq. the (map_of t k))
            else None)"
    unfolding map_of_val[of "Combiner_final inq" k] keys_final s by auto
  show "distinct (map fst (Combiner_final inq))"
    by (simp add: Combiner_final_def fst_Combiner_loop distinct_foldl)
  show "map_of (Combiner_final inq') = map_of (Combiner_final inq)"
    if "mset (map mset inq') = mset (map mset inq)" for inq'
    using that by (rule final_perm)
qed

theorem Combiner_fold_exact_witness:
  "distinct (map fst [(''128.252.0.1'', 100 :: 64 word), (''128.252.0.2'', 7)])
   \<and> distinct (map fst [(''128.252.0.1'', 50 :: 64 word)])
   \<and> map_of (Combiner_final [[(''128.252.0.1'', 100), (''128.252.0.2'', 7)], [(''128.252.0.1'', 50)]])
        ''128.252.0.1'' = Some 150
   \<and> map_of (Combiner_final [[(''128.252.0.1'', 100), (''128.252.0.2'', 7)], [(''128.252.0.1'', 50)]])
        ''10.0.0.1'' = None
   \<and> map_of (Combiner_final [[(''128.252.0.1'', 50)], [(''128.252.0.2'', 7), (''128.252.0.1'', 100)]])
      = map_of (Combiner_final [[(''128.252.0.1'', 100), (''128.252.0.2'', 7)], [(''128.252.0.1'', 50)]])"
proof -
  let ?inq = "[[(''128.252.0.1'', 100), (''128.252.0.2'', 7)], [(''128.252.0.1'', 50 :: 64 word)]]"
  let ?inq' = "[[(''128.252.0.1'', 50)], [(''128.252.0.2'', 7), (''128.252.0.1'', 100 :: 64 word)]]"
  have h: "\<forall>t\<in>set ?inq. distinct (map fst t)" by simp
  have a: "map_of (Combiner_final ?inq) ''128.252.0.1'' = Some 150"
    using Combiner_fold_exact [OF h, of "''128.252.0.1''", THEN conjunct1] by simp
  have b: "map_of (Combiner_final ?inq) ''10.0.0.1'' = None"
    using Combiner_fold_exact [OF h, of "''10.0.0.1''", THEN conjunct1] by simp
  have m: "mset (map mset ?inq') = mset (map mset ?inq)"
    by (simp add: add_mset_commute)
  have c: "map_of (Combiner_final ?inq') = map_of (Combiner_final ?inq)"
    by (rule Combiner_fold_exact [OF h, of "''128.252.0.1''", THEN conjunct2, THEN conjunct2, rule_format, OF m])
  show ?thesis using a b c by simp
qed

section \<open>Reducer: what one batch contributes\<close>

text \<open>
  C7. The partial result of \<open>Reduce\<close> has a key exactly when the key begins with the
  prefix and is the origin or the responder of some record, and holds for it the sum over
  the records of the record's full byte count once for the origin being the key and once
  for the responder being the key. A record whose origin and responder both match adds
  its byte count under both; an address without the prefix has no entry. The witness is
  Scenario B, with the origin in the prefix the code uses: 150 and 50 give 200, and the
  responder outside the prefix has no entry.
\<close>

theorem Reduce_tally:
  "map_of (Reduce rs) k =
     (if HasPrefix k ''128.252.'' \<and> (\<exists>c\<in>set rs. orig c = k \<or> resp c = k)
      then Some (\<Sum>c\<leftarrow>rs. (if orig c = k then bytes c else 0) + (if resp c = k then bytes c else 0))
      else None)
   \<and> distinct (map fst (Reduce rs))"
proof -
  have v: "val (Reduce rs) k = (if HasPrefix k ''128.252.''
                 then (\<Sum>c\<leftarrow>rs. (if orig c = k then bytes c else 0) + (if resp c = k then bytes c else 0))
                 else 0)"
    unfolding Reduce_def val_Reduce_loop by (simp add: val_def)
  have ks: "fst ` set (Reduce rs) = {k. HasPrefix k ''128.252.'' \<and> (\<exists>c\<in>set rs. orig c = k \<or> resp c = k)}"
    unfolding Reduce_def keys_Reduce_loop by simp
  have "distinct (map fst (Reduce rs))"
    unfolding Reduce_def by (rule distinct_Reduce_loop) simp
  moreover have "map_of (Reduce rs) k =
     (if HasPrefix k ''128.252.'' \<and> (\<exists>c\<in>set rs. orig c = k \<or> resp c = k)
      then Some (\<Sum>c\<leftarrow>rs. (if orig c = k then bytes c else 0) + (if resp c = k then bytes c else 0))
      else None)"
    unfolding map_of_val[of "Reduce rs" k] ks v by auto
  ultimately show ?thesis by simp
qed

theorem Reduce_tally_witness:
  "map_of (Reduce [\<lparr>orig = ''128.252.0.1'', resp = ''10.0.0.2'', bytes = 150\<rparr>,
                   \<lparr>orig = ''128.252.0.1'', resp = ''10.0.0.2'', bytes = 50\<rparr>]) ''128.252.0.1'' = Some 200
   \<and> map_of (Reduce [\<lparr>orig = ''128.252.0.1'', resp = ''10.0.0.2'', bytes = 150\<rparr>,
                   \<lparr>orig = ''128.252.0.1'', resp = ''10.0.0.2'', bytes = 50\<rparr>]) ''10.0.0.2'' = None
   \<and> map_of (Reduce [\<lparr>orig = ''128.252.0.1'', resp = ''128.252.0.9'', bytes = 150\<rparr>]) ''128.252.0.1'' = Some 150
   \<and> map_of (Reduce [\<lparr>orig = ''128.252.0.1'', resp = ''128.252.0.9'', bytes = 150\<rparr>]) ''128.252.0.9'' = Some 150"
proof -
  let ?rs = "[\<lparr>orig = ''128.252.0.1'', resp = ''10.0.0.2'', bytes = 150\<rparr>,
              \<lparr>orig = ''128.252.0.1'', resp = ''10.0.0.2'', bytes = 50 :: 64 word\<rparr>]"
  let ?rs2 = "[\<lparr>orig = ''128.252.0.1'', resp = ''128.252.0.9'', bytes = 150 :: 64 word\<rparr>]"
  have a: "map_of (Reduce ?rs) ''128.252.0.1'' = Some 200"
    using Reduce_tally [of ?rs "''128.252.0.1''"] by (simp add: HasPrefix_def)
  have b: "map_of (Reduce ?rs) ''10.0.0.2'' = None"
    using Reduce_tally [of ?rs "''10.0.0.2''"] by (simp add: HasPrefix_def)
  have c: "map_of (Reduce ?rs2) ''128.252.0.1'' = Some 150"
    using Reduce_tally [of ?rs2 "''128.252.0.1''"] by (simp add: HasPrefix_def)
  have d: "map_of (Reduce ?rs2) ''128.252.0.9'' = Some 150"
    using Reduce_tally [of ?rs2 "''128.252.0.9''"] by (simp add: HasPrefix_def)
  show ?thesis using a b c d by blast
qed

section \<open>Every tallied key has the fixed prefix\<close>

text \<open>
  C10. Every key of a partial result of \<open>Reduce\<close> begins with the literal \<open>128.252.\<close>,
  which is written into \<open>Reduce\<close> and is not a parameter; so does every key of the map
  the combiner builds from partial results of \<open>Reduce\<close>, and every address printed by the
  report of that map, whatever the order in which the report ranges over it. An address
  without the prefix has no entry.
\<close>

theorem tallied_keys_have_prefix:
  "(\<forall>k \<in> fst ` set (Reduce rs). HasPrefix k ''128.252.'')
   \<and> (\<forall>k \<in> fst ` set (Combiner_final (map Reduce batches)). HasPrefix k ''128.252.'')
   \<and> (set (visit (Combiner_final (map Reduce batches))) \<subseteq> set (Combiner_final (map Reduce batches))
        \<longrightarrow> (\<forall>l \<in> set (fst (Combiner_Start visit (map Reduce batches))). HasPrefix (fst l) ''128.252.''))"
proof (intro conjI impI)
  show a: "\<forall>k \<in> fst ` set (Reduce rs). HasPrefix k ''128.252.''" for rs
    using keys_Reduce[of rs] by blast
  show b: "\<forall>k \<in> fst ` set (Combiner_final (map Reduce batches)). HasPrefix k ''128.252.''"
    unfolding keys_final using a by auto
  show "\<forall>l \<in> set (fst (Combiner_Start visit (map Reduce batches))). HasPrefix (fst l) ''128.252.''"
    if v: "set (visit (Combiner_final (map Reduce batches))) \<subseteq> set (Combiner_final (map Reduce batches))"
  proof -
    have eq: "fst (Combiner_Start visit (map Reduce batches))
          = Report (visit (Combiner_final (map Reduce batches)))"
      by (simp add: Combiner_Start_def Combiner_final_def split: prod.splits)
    have sub: "fst ` set (Report (visit (Combiner_final (map Reduce batches))))
          \<subseteq> fst ` set (Combiner_final (map Reduce batches))"
      using Report_ips[of "visit (Combiner_final (map Reduce batches))"] v by blast
    show ?thesis
    proof
      fix l
      assume "l \<in> set (fst (Combiner_Start visit (map Reduce batches)))"
      then have "fst l \<in> fst ` set (Report (visit (Combiner_final (map Reduce batches))))"
        by (simp add: eq)
      then have "fst l \<in> fst ` set (Combiner_final (map Reduce batches))"
        using sub by blast
      then show "HasPrefix (fst l) ''128.252.''"
        using b by blast
    qed
  qed
qed

theorem tallied_keys_have_prefix_witness:
  "Reduce [\<lparr>orig = ''128.252.0.1'', resp = ''10.0.0.2'', bytes = 150\<rparr>,
           \<lparr>orig = ''10.0.0.7'', resp = ''128.252.0.9'', bytes = 50\<rparr>]
     = [(''128.252.0.1'', 150), (''128.252.0.9'', 50)]
   \<and> fst (Combiner_Start (\<lambda>t. t)
         (map Reduce [[\<lparr>orig = ''128.252.0.1'', resp = ''10.0.0.2'', bytes = 150\<rparr>,
                       \<lparr>orig = ''10.0.0.7'', resp = ''128.252.0.9'', bytes = 50\<rparr>]]))
     = [(''128.252.0.1'', 150, 200), (''128.252.0.9'', 50, 200)]
   \<and> HasPrefix ''128.252.0.1'' ''128.252.'' \<and> HasPrefix ''128.252.0.9'' ''128.252.''
   \<and> map_of (Reduce [\<lparr>orig = ''128.252.0.1'', resp = ''10.0.0.2'', bytes = 150\<rparr>,
           \<lparr>orig = ''10.0.0.7'', resp = ''128.252.0.9'', bytes = 50\<rparr>]) ''10.0.0.2'' = None"
proof -
  let ?rs = "[\<lparr>orig = ''128.252.0.1'', resp = ''10.0.0.2'', bytes = 150 :: 64 word\<rparr>,
              \<lparr>orig = ''10.0.0.7'', resp = ''128.252.0.9'', bytes = 50\<rparr>]"
  note T = tallied_keys_have_prefix [of ?rs "[?rs]" "\<lambda>t. t"]
  have r: "Reduce ?rs = [(''128.252.0.1'', 150), (''128.252.0.9'', 50)]"
    by (simp add: Reduce_def HasPrefix_def)
  have c: "fst (Combiner_Start (\<lambda>t. t) (map Reduce [?rs]))
             = [(''128.252.0.1'', 150, 200), (''128.252.0.9'', 50, 200)]"
    by (simp add: r Combiner_Start_def Report_def)
  from T have "\<forall>l \<in> set (fst (Combiner_Start (\<lambda>t. t) (map Reduce [?rs]))). HasPrefix (fst l) ''128.252.''"
    by blast
  then have p: "HasPrefix ''128.252.0.1'' ''128.252.'' \<and> HasPrefix ''128.252.0.9'' ''128.252.''"
    unfolding c by simp
  have n: "map_of (Reduce ?rs) ''10.0.0.2'' = None"
    unfolding r by simp
  show ?thesis using r c p n by blast
qed

section \<open>Report: equal totals\<close>

text \<open>
  C9. The claim: one line for each distinct key, each key at most once. The code: for
  the map with the two keys \<open>128.252.0.1\<close> and \<open>128.252.0.2\<close>, both with total 5,
  \<open>swapped[5]\<close> keeps only the key met first (the \<open>append\<close> for the second is never
  stored), \<open>keys\<close> holds the value 5 twice, and the report prints the first key twice
  and the other key never, in whichever order the map is ranged over.
\<close>

theorem Report_repeats_key_on_equal_totals:
  "Report [(''128.252.0.1'', 5), (''128.252.0.2'', 5)]
     = [(''128.252.0.1'', 5, 10), (''128.252.0.1'', 5, 10)]
   \<and> Report [(''128.252.0.2'', 5), (''128.252.0.1'', 5)]
     = [(''128.252.0.2'', 5, 10), (''128.252.0.2'', 5, 10)]"
  by (simp add: Report_def)

section \<open>Parser: the records of a batch\<close>

text \<open>
  C2. The claim: a batch holds exactly the records of the non-skipped lines of its
  chunk, so the records of all batches count the non-skipped lines. The code: the chunk
  \<open>#comment\<close> has no non-skipped line and its batch holds one record, the zero record;
  a chunk of one data line has one non-skipped line and its batch holds two records, the
  zero record and the line's. \<open>make([]conn, len(lines))\<close> makes a slice of that length,
  not of that capacity, and the loop appends behind it.
\<close>

theorem Parse_batch_has_zero_records:
  "Parse ''#comment'' = Inr [zero_conn] \<and> non_skipped ''#comment'' = []
   \<and> Parse (conn_line ''128.252.0.1'' ''10.0.0.2'' ''100'' ''50'')
       = Inr [zero_conn, \<lparr>orig = ''128.252.0.1'', resp = ''10.0.0.2'', bytes = 150\<rparr>]
   \<and> length (non_skipped (conn_line ''128.252.0.1'' ''10.0.0.2'' ''100'' ''50'')) = 1"
proof -
  have a: "Parse ''#comment'' = Inr [zero_conn] \<and> non_skipped ''#comment'' = []"
    by (simp add: Parse_def non_skipped_def is_comment_def index_def)
  have l: "Split (conn_line ''128.252.0.1'' ''10.0.0.2'' ''100'' ''50'') nl
             = [conn_line ''128.252.0.1'' ''10.0.0.2'' ''100'' ''50'']"
    by (simp add: conn_line_def)
  have b: "length (non_skipped (conn_line ''128.252.0.1'' ''10.0.0.2'' ''100'' ''50'')) = 1"
    unfolding non_skipped_def l by (simp add: is_comment_def conn_line_def)
  show ?thesis using a b Parse_conn_line by blast
qed

section \<open>Parser: which lines are skipped\<close>




section \<open>Fatal conditions\<close>

text \<open>
  C8, as the code has it. The process ends with a failure and prints no report when the
  input is a plain file (a name that does not end in \<open>.gz\<close>) that cannot be opened; when,
  for a name that ends in \<open>.gz\<close>, the pipe to the decompression process cannot be made
  or the process cannot be started; and when a read that the reader makes returns an
  error other than end-of-stream (the reader makes no read after one that returned no
  bytes). The status the decompression process exits with is never looked at: the outcome
  is the same whatever it is.
\<close>

theorem pipeline_fatal:
  "(\<not> HasSuffix filename ''.gz'' \<and> open_file w = None
      \<longrightarrow> pipeline visit filename bsize w = Inl FatalExit)
   \<and> (HasSuffix filename ''.gz'' \<and> pipe_failed w
      \<longrightarrow> pipeline visit filename bsize w = Inl Panic)
   \<and> (HasSuffix filename ''.gz'' \<and> \<not> pipe_failed w \<and> start_failed w
      \<longrightarrow> pipeline visit filename bsize w = Inl FatalExit)
   \<and> (GetReader filename w = Inr (pre @ Rd d OtherErr # post) \<and> list_all live_read pre
      \<longrightarrow> pipeline visit filename bsize w = Inl FatalExit)
   \<and> pipeline visit filename bsize (w\<lparr>proc_exit := st\<rparr>) = pipeline visit filename bsize w"
proof (intro conjI impI)
  show "pipeline visit filename bsize w = Inl FatalExit"
    if "\<not> HasSuffix filename ''.gz'' \<and> open_file w = None"
    using that by (intro pipeline_Reader_fails) (simp add: Reader_Start_def GetReader_def)
  show "pipeline visit filename bsize w = Inl Panic"
    if "HasSuffix filename ''.gz'' \<and> pipe_failed w"
    using that by (intro pipeline_Reader_fails) (simp add: Reader_Start_def GetReader_def)
  show "pipeline visit filename bsize w = Inl FatalExit"
    if "HasSuffix filename ''.gz'' \<and> \<not> pipe_failed w \<and> start_failed w"
    using that by (intro pipeline_Reader_fails) (simp add: Reader_Start_def GetReader_def)
  show "pipeline visit filename bsize w = Inl FatalExit"
    if "GetReader filename w = Inr (pre @ Rd d OtherErr # post) \<and> list_all live_read pre"
    using that by (intro pipeline_Reader_fails) (simp add: Reader_Start_def Reader_loop_error)
  show "pipeline visit filename bsize (w\<lparr>proc_exit := st\<rparr>) = pipeline visit filename bsize w"
    by (simp add: pipeline_def Reader_Start_def GetReader_def)
qed

theorem pipeline_fatal_witness:
  "pipeline (\<lambda>t. t) ''conn.log'' 8
     \<lparr>open_file = None, pipe_failed = False, start_failed = False, proc_stdout = [], proc_exit = 0\<rparr>
     = Inl FatalExit
   \<and> pipeline (\<lambda>t. t) ''conn.log.gz'' 8
     \<lparr>open_file = None, pipe_failed = True, start_failed = False, proc_stdout = [], proc_exit = 0\<rparr>
     = Inl Panic
   \<and> pipeline (\<lambda>t. t) ''conn.log.gz'' 8
     \<lparr>open_file = None, pipe_failed = False, start_failed = True, proc_stdout = [], proc_exit = 0\<rparr>
     = Inl FatalExit
   \<and> pipeline (\<lambda>t. t) ''conn.log'' 8 (plain_file [Rd ''abc'' NoErr, Rd [] OtherErr]) = Inl FatalExit"
proof -
  let ?w1 = "\<lparr>open_file = None, pipe_failed = False, start_failed = False, proc_stdout = [], proc_exit = 0\<rparr>"
  let ?w2 = "\<lparr>open_file = None, pipe_failed = True, start_failed = False, proc_stdout = [], proc_exit = 0\<rparr>"
  let ?w3 = "plain_file [Rd ''abc'' NoErr, Rd [] OtherErr]"
  let ?w4 = "\<lparr>open_file = None, pipe_failed = False, start_failed = True, proc_stdout = [], proc_exit = 0\<rparr>"
  have a: "pipeline (\<lambda>t. t) ''conn.log'' 8 ?w1 = Inl FatalExit"
    using pipeline_fatal [of "''conn.log''" ?w1 "\<lambda>t. t" 8, THEN conjunct1]
    by (simp add: HasSuffix_def)
  have b: "pipeline (\<lambda>t. t) ''conn.log.gz'' 8 ?w2 = Inl Panic"
    using pipeline_fatal [of "''conn.log.gz''" ?w2 "\<lambda>t. t" 8, THEN conjunct2, THEN conjunct1]
    by (simp add: HasSuffix_def)
  have s: "pipeline (\<lambda>t. t) ''conn.log.gz'' 8 ?w4 = Inl FatalExit"
    using pipeline_fatal [of "''conn.log.gz''" ?w4 "\<lambda>t. t" 8,
        THEN conjunct2, THEN conjunct2, THEN conjunct1]
    by (simp add: HasSuffix_def)
  have g: "GetReader ''conn.log'' ?w3 = Inr ([Rd ''abc'' NoErr] @ Rd [] OtherErr # [])"
    by (simp add: GetReader_def HasSuffix_def plain_file_def)
  have l: "list_all live_read [Rd ''abc'' NoErr]"
    by simp
  have c: "pipeline (\<lambda>t. t) ''conn.log'' 8 ?w3 = Inl FatalExit"
    using pipeline_fatal [of "''conn.log''" ?w3 "\<lambda>t. t" 8 "[Rd ''abc'' NoErr]" "[]" "[]",
        THEN conjunct2, THEN conjunct2, THEN conjunct2, THEN conjunct1] g l
    by blast
  show ?thesis using a b s c by blast
qed

text \<open>
  C8 as stated fails for the decompression process and for an unreadable input whose
  name ends in \<open>.gz\<close>. A decompressor that writes one line and the start of the next and
  then exits with status 1 (a truncated archive) ends the stream like any end of input,
  and the report is printed from what was read. A decompressor that cannot read its
  input writes nothing and exits with status 1: the pipeline ends as for an empty input,
  with no failure.
\<close>

theorem failed_decompressor_still_reports:
  "proc_exit (gz_proc [Rd (conn_line ''128.252.0.1'' ''10.0.0.2'' ''100'' ''50'' @ [nl] @ ''1.0'') NoErr,
                       Rd [] EOF] 1) = 1
   \<and> pipeline (\<lambda>t. t) ''conn.log.gz'' 80
       (gz_proc [Rd (conn_line ''128.252.0.1'' ''10.0.0.2'' ''100'' ''50'' @ [nl] @ ''1.0'') NoErr,
                 Rd [] EOF] 1)
     = Inr [(''128.252.0.1'', 150, 150)]
   \<and> open_file (gz_proc [Rd [] EOF] 1) = None \<and> proc_exit (gz_proc [Rd [] EOF] 1) = 1
   \<and> pipeline (\<lambda>t. t) ''conn.log.gz'' 80 (gz_proc [Rd [] EOF] 1) = Inr []"
proof -
  have r: "Reduce [zero_conn, \<lparr>orig = ''128.252.0.1'', resp = ''10.0.0.2'', bytes = 150\<rparr>]
             = [(''128.252.0.1'', 150)]"
    by (simp add: Reduce_def HasPrefix_def zero_conn_def)
  have c: "fst (Combiner_Start (\<lambda>t. t) [[(''128.252.0.1'', 150)]]) = [(''128.252.0.1'', 150, 150)]"
    by (simp add: Combiner_Start_def Report_def)
  have a: "pipeline (\<lambda>t. t) ''conn.log.gz'' 80
       (gz_proc [Rd (conn_line ''128.252.0.1'' ''10.0.0.2'' ''100'' ''50'' @ [nl] @ ''1.0'') NoErr,
                 Rd [] EOF] 1)
     = Inr [(''128.252.0.1'', 150, 150)]"
    unfolding pipeline_def Reader_truncated_stream by (simp add: Parse_conn_line r c)
  have b: "pipeline (\<lambda>t. t) ''conn.log.gz'' 80 (gz_proc [Rd [] EOF] 1) = Inr []"
    by (simp add: pipeline_def Reader_Start_def GetReader_def HasSuffix_def gz_proc_def
        Combiner_Start_def Report_def)
  show ?thesis using a b by (simp add: gz_proc_def)
qed

section \<open>Parser and Reducer close their output after all tasks\<close>

text \<open>
  C6. In every state that any interleaving of the Parser stage (and likewise of the
  Reducer stage) reaches: \<open>close(outq)\<close> has run at most once; and if the output queue
  is closed, then it was closed once, the input queue is closed and drained, no task is
  left that has not sent its result or not released its limiter slot, and the results
  sent are those of all items, each received downstream or still in the queue. Unless a
  parse task panics the stage can always go on to the state where it has closed its
  output; the Reducer never panics.
\<close>

theorem stages_close_after_all_tasks:
  "(Parser_Start acts = Some s \<longrightarrow>
      closes s \<le> 1
      \<and> (out_closed s \<longrightarrow> closed_after_all_tasks Parse s)
      \<and> (\<not> crashed s \<and> total_on Parse (offered s) \<longrightarrow>
           (\<exists>more t. Parser_Start (acts @ more) = Some t \<and> out_closed t
                \<and> offered t = offered s)))
   \<and> (Reducer_Start acts' = Some s' \<longrightarrow>
      closes s' \<le> 1
      \<and> (out_closed s' \<longrightarrow> closed_after_all_tasks (\<lambda>data_slice. Inr (Reduce data_slice)) s')
      \<and> \<not> crashed s'
      \<and> (\<exists>more t. Reducer_Start (acts' @ more) = Some t \<and> out_closed t
                \<and> offered t = offered s'))"
proof (rule conjI; rule impI)
  assume r: "Parser_Start acts = Some s"
  then have r': "run ParserPool chansize Parse acts init_stage = Some s"
    by (simp add: Parser_Start_def)
  have c: "\<exists>more t. Parser_Start (acts @ more) = Some t \<and> out_closed t \<and> offered t = offered s"
    if "\<not> crashed s \<and> total_on Parse (offered s)"
    unfolding Parser_Start_def
    using that by (intro stage_closable[OF r']) (simp_all add: ParserPool_def chansize_def)
  from stage_closing[OF r'] c
  show "closes s \<le> 1
      \<and> (out_closed s \<longrightarrow> closed_after_all_tasks Parse s)
      \<and> (\<not> crashed s \<and> total_on Parse (offered s) \<longrightarrow>
           (\<exists>more t. Parser_Start (acts @ more) = Some t \<and> out_closed t
                \<and> offered t = offered s))"
    by blast
next
  let ?work = "\<lambda>data_slice. Inr (Reduce data_slice) :: failure + tally"
  assume "Reducer_Start acts' = Some s'"
  then have r': "run ReducerPool chansize ?work acts' init_stage = Some s'"
    by (simp add: Reducer_Start_def)
  have nc: "\<not> crashed s'"
    by (rule stage_never_crashes[OF _ stage_inv_init _ r']) (simp_all add: init_stage_def)
  have c: "\<exists>more t. Reducer_Start (acts' @ more) = Some t \<and> out_closed t \<and> offered t = offered s'"
    unfolding Reducer_Start_def
    by (intro stage_closable[OF r' nc]) (simp_all add: ReducerPool_def chansize_def total_on_always)
  from stage_closing[OF r'] nc c
  show "closes s' \<le> 1
      \<and> (out_closed s' \<longrightarrow> closed_after_all_tasks ?work s')
      \<and> \<not> crashed s'
      \<and> (\<exists>more t. Reducer_Start (acts' @ more) = Some t \<and> out_closed t
                \<and> offered t = offered s')"
    by blast
qed

theorem stages_close_after_all_tasks_witness:
  "(\<exists>s. Parser_Start (sample_schedule sample_chunk) = Some s \<and> out_closed s
        \<and> closes s \<le> 1 \<and> closed_after_all_tasks Parse s \<and> delivered s = [sample_batch])
   \<and> (\<exists>s. Reducer_Start (sample_schedule sample_batch) = Some s \<and> out_closed s
        \<and> closes s \<le> 1 \<and> closed_after_all_tasks (\<lambda>data_slice. Inr (Reduce data_slice)) s
        \<and> delivered s = [[(''128.252.0.1'', 150)]])
   \<and> (\<exists>more t. Parser_Start ([UpSend sample_chunk, Recv, Acquire] @ more) = Some t \<and> out_closed t
        \<and> offered t = [sample_chunk])"
proof -
  note T = stages_close_after_all_tasks
             [of "sample_schedule sample_chunk" _ "sample_schedule sample_batch"]
  have r: "Reduce sample_batch = [(''128.252.0.1'', 150)]"
    by (simp add: Reduce_def HasPrefix_def zero_conn_def sample_batch_def)
  have a: "\<exists>s. Parser_Start (sample_schedule sample_chunk) = Some s \<and> out_closed s
        \<and> closes s \<le> 1 \<and> closed_after_all_tasks Parse s \<and> delivered s = [sample_batch]"
    using T[THEN conjunct1] Parser_sample_run by simp
  have b: "\<exists>s. Reducer_Start (sample_schedule sample_batch) = Some s \<and> out_closed s
        \<and> closes s \<le> 1 \<and> closed_after_all_tasks (\<lambda>data_slice. Inr (Reduce data_slice)) s
        \<and> delivered s = [[(''128.252.0.1'', 150)]]"
    using T[THEN conjunct2] Reducer_sample_run r by simp
  have p: "Parse sample_chunk = Inr sample_batch"
    unfolding sample_chunk_def sample_batch_def by (rule Parse_conn_line)
  let ?s = "init_stage\<lparr>pc := Spawning sample_chunk, limiter_len := 1,
              offered := [sample_chunk], taken := [sample_chunk]\<rparr> :: (bytes, conn list) stage"
  have m: "Parser_Start [UpSend sample_chunk, Recv, Acquire] = Some ?s"
    by (simp add: Parser_Start_def fire_def init_stage_def ParserPool_def chansize_def)
  have h: "\<not> crashed ?s \<and> total_on Parse (offered ?s)"
    by (simp add: init_stage_def total_on_def p)
  have c: "\<exists>more t. Parser_Start ([UpSend sample_chunk, Recv, Acquire] @ more) = Some t \<and> out_closed t
        \<and> offered t = [sample_chunk]"
    using stages_close_after_all_tasks
             [of "[UpSend sample_chunk, Recv, Acquire]" ?s, THEN conjunct1, rule_format, OF m]
      h by (simp add: init_stage_def)
  show ?thesis using a b c by blast
qed

end
